theory Spec2Isabelle
  imports Main "HOL-Library.Sublist"
begin

section \<open>Strings\<close>

text \<open>
  A Python \<^verbatim>\<open>str\<close> is a sequence of Unicode code points, so a string is a list of
  natural numbers here. \<open>str\<close> turns an ASCII literal of Isabelle into such a list.
\<close>

type_synonym pystr = "nat list"

definition str :: "string \<Rightarrow> pystr" where
  "str cs = map of_char cs"

text \<open>
  \<^verbatim>\<open>str.isspace\<close> on one code point, which is also the class \<^verbatim>\<open>\s\<close> of \<^verbatim>\<open>re\<close> on
  a \<^verbatim>\<open>str\<close> pattern: tab to carriage return, the four separators 0x1C to 0x1F, space,
  0x85, 0xA0, 0x1680, 0x2000 to 0x200A, 0x2028, 0x2029, 0x202F, 0x205F and 0x3000.
\<close>

definition isspace :: "nat \<Rightarrow> bool" where
  "isspace c \<longleftrightarrow>
     (9 \<le> c \<and> c \<le> 13) \<or> (28 \<le> c \<and> c \<le> 32) \<or> c = 133 \<or> c = 160 \<or> c = 5760 \<or>
     (8192 \<le> c \<and> c \<le> 8202) \<or> c = 8232 \<or> c = 8233 \<or> c = 8239 \<or> c = 8287 \<or> c = 12288"

text \<open>\<^verbatim>\<open>s.strip()\<close>: leading and trailing whitespace removed.\<close>

definition strip :: "pystr \<Rightarrow> pystr" where
  "strip s = rev (dropWhile isspace (rev (dropWhile isspace s)))"

text \<open>The class \<^verbatim>\<open>[0-9]\<close>: the ten ASCII digits only.\<close>

definition digit09 :: "nat \<Rightarrow> bool" where
  "digit09 c \<longleftrightarrow> 48 \<le> c \<and> c \<le> 57"

text \<open>The classes \<^verbatim>\<open>[^\n,]\<close> and \<^verbatim>\<open>[^\n]\<close>.\<close>

definition not_nl_comma :: "nat \<Rightarrow> bool" where
  "not_nl_comma c \<longleftrightarrow> c \<noteq> 10 \<and> c \<noteq> 44"

definition not_nl :: "nat \<Rightarrow> bool" where
  "not_nl c \<longleftrightarrow> c \<noteq> 10"

text \<open>
  A literal character \<open>p\<close> of a pattern compiled with \<^verbatim>\<open>re.IGNORECASE\<close> against the
  input character \<open>c\<close>, for ASCII \<open>p\<close>. A letter matches both of its ASCII cases and the
  code points whose simple lower case is that letter or that \<^verbatim>\<open>re\<close> treats as
  equivalent: 0x17F for s, 0x130 and 0x131 for i, 0x212A for k. Any other character
  matches itself only.
\<close>

definition ascii_lower :: "nat \<Rightarrow> nat" where
  "ascii_lower p = (if 65 \<le> p \<and> p \<le> 90 then p + 32 else p)"

definition ci :: "nat \<Rightarrow> nat \<Rightarrow> bool" where
  "ci p c =
     (let lo = ascii_lower p in
      if 97 \<le> lo \<and> lo \<le> 122 then
        c = lo \<or> c + 32 = lo \<or> (lo = 115 \<and> c = 383) \<or>
        (lo = 105 \<and> (c = 304 \<or> c = 305)) \<or> (lo = 107 \<and> c = 8490)
      else c = p)"

section \<open>Backtracking regular expressions\<close>

text \<open>
  The patterns of the source are built from the combinators below. A matcher state is
  the value of group 1 so far (\<open>None\<close> while the group has not taken part) and the
  input that is left. A pattern takes the continuation that matches what follows it,
  and a result is \<open>None\<close> for no match and \<open>Some g\<close> for a match whose \<^verbatim>\<open>group(1)\<close>
  is \<open>g\<close>. Alternatives are tried in the order \<^verbatim>\<open>re\<close> tries them: a greedy star the
  longest repetition first, an optional part first with the part, an alternation from
  left to right.
\<close>

type_synonym mstate = "pystr option \<times> pystr"
type_synonym mresult = "pystr option option"
type_synonym cont = "mstate \<Rightarrow> mresult"
type_synonym rx = "cont \<Rightarrow> cont"

definition accept :: cont where
  "accept st = Some (fst st)"

definition chr1 :: "(nat \<Rightarrow> bool) \<Rightarrow> rx" where
  "chr1 P k st =
     (case snd st of [] \<Rightarrow> None | c # cs \<Rightarrow> if P c then k (fst st, cs) else None)"

primrec lit :: "pystr \<Rightarrow> rx" where
  "lit [] = (\<lambda>k. k)"
| "lit (p # ps) = (\<lambda>k. chr1 (\<lambda>c. c = p) (lit ps k))"

primrec lit_i :: "pystr \<Rightarrow> rx" where
  "lit_i [] = (\<lambda>k. k)"
| "lit_i (p # ps) = (\<lambda>k. chr1 (ci p) (lit_i ps k))"

fun star :: "(nat \<Rightarrow> bool) \<Rightarrow> cont \<Rightarrow> mstate \<Rightarrow> mresult" where
  "star P k (g, []) = k (g, [])"
| "star P k (g, c # cs) =
     (if P c then (case star P k (g, cs) of Some r \<Rightarrow> Some r | None \<Rightarrow> k (g, c # cs))
      else k (g, c # cs))"

definition many1 :: "(nat \<Rightarrow> bool) \<Rightarrow> rx" where
  "many1 P = chr1 P \<circ> star P"

definition opt :: "rx \<Rightarrow> rx" where
  "opt r k st = (case r k st of Some res \<Rightarrow> Some res | None \<Rightarrow> k st)"

definition alt :: "rx \<Rightarrow> rx \<Rightarrow> rx" where
  "alt r1 r2 k st = (case r1 k st of Some res \<Rightarrow> Some res | None \<Rightarrow> r2 k st)"

text \<open>\<^verbatim>\<open>X{n}\<close> and \<^verbatim>\<open>X{1,2}\<close> for a class \<open>X\<close>.\<close>

primrec rep :: "nat \<Rightarrow> (nat \<Rightarrow> bool) \<Rightarrow> rx" where
  "rep 0 P = (\<lambda>k. k)"
| "rep (Suc n) P = (\<lambda>k. chr1 P (rep n P k))"

definition rep12 :: "(nat \<Rightarrow> bool) \<Rightarrow> rx" where
  "rep12 P = chr1 P \<circ> opt (chr1 P)"

text \<open>The capturing group 1: what the inner pattern consumed.\<close>

definition group :: "rx \<Rightarrow> rx" where
  "group r k st =
     r (\<lambda>st'. k (Some (take (length (snd st) - length (snd st')) (snd st)), snd st')) st"

text \<open>The lookahead \<^verbatim>\<open>(?=...)\<close> consumes nothing.\<close>

definition lookahead :: "rx \<Rightarrow> rx" where
  "lookahead r k st = (case r accept st of None \<Rightarrow> None | Some _ \<Rightarrow> k st)"

text \<open>\<^verbatim>\<open>re.search\<close>: the match at the leftmost start position that has one.\<close>

fun search :: "cont \<Rightarrow> pystr \<Rightarrow> mresult" where
  "search m [] = m (None, [])"
| "search m (c # cs) =
     (case m (None, c # cs) of Some res \<Rightarrow> Some res | None \<Rightarrow> search m cs)"

definition re_search :: "rx \<Rightarrow> pystr \<Rightarrow> mresult" where
  "re_search r s = search (r accept) s"

section \<open>The patterns of \<^verbatim>\<open>parse_notes\<close>\<close>

text \<open>\<^verbatim>\<open>Client:\s*([^\n,]+)\<close>\<close>

definition client_re :: rx where
  "client_re = lit (str ''Client:'') \<circ> star isspace \<circ> group (many1 not_nl_comma)"

text \<open>\<^verbatim>\<open>Rendering Provider:\s*([^\n]+)\<close>\<close>

definition provider_re :: rx where
  "provider_re = lit (str ''Rendering Provider:'') \<circ> star isspace \<circ> group (many1 not_nl)"

text \<open>\<^verbatim>\<open>Date:\s*([0-9]{4}/[0-9]{2}/[0-9]{2})\<close>\<close>

definition date_re :: rx where
  "date_re = lit (str ''Date:'') \<circ> star isspace \<circ>
     group (rep 4 digit09 \<circ> lit (str ''/'') \<circ> rep 2 digit09 \<circ> lit (str ''/'') \<circ> rep 2 digit09)"

text \<open>
  \<^verbatim>\<open>[0-9]{1,2}:[0-9]{2}\s*(?:AM|PM)?\s*-\s*[0-9]{1,2}:[0-9]{2}\s*(?:AM|PM)?\<close>, under
  \<^verbatim>\<open>re.IGNORECASE\<close>.
\<close>

definition clock_re :: rx where
  "clock_re = rep12 digit09 \<circ> lit_i (str '':'') \<circ> rep 2 digit09 \<circ> star isspace \<circ>
     opt (alt (lit_i (str ''AM'')) (lit_i (str ''PM'')))"

definition range_re :: rx where
  "range_re = clock_re \<circ> star isspace \<circ> lit_i (str ''-'') \<circ> star isspace \<circ> clock_re"

text \<open>\<^verbatim>\<open>Session Time:\s*(?:(range)|-)?\<close>, under \<^verbatim>\<open>re.IGNORECASE\<close>.\<close>

definition session_time_re :: rx where
  "session_time_re = lit_i (str ''Session Time:'') \<circ> star isspace \<circ>
     opt (alt (group range_re) (lit_i (str ''-'')))"

section \<open>\<^verbatim>\<open>parse_notes\<close>\<close>

text \<open>
  \<^verbatim>\<open>re.split(r"(?=Client:)", text)\<close>. Every match is empty, so the text is cut at each
  position where the lookahead holds, position 0 included (which gives a leading empty
  piece), and nothing is removed. \<open>split_at piece s\<close> walks the text with the piece
  collected since the last cut.
\<close>

definition at_marker :: "pystr \<Rightarrow> bool" where
  "at_marker s \<longleftrightarrow> lookahead (lit (str ''Client:'')) accept (None, s) \<noteq> None"

fun split_at :: "pystr \<Rightarrow> pystr \<Rightarrow> pystr list" where
  "split_at piece [] = [piece]"
| "split_at piece (c # cs) =
     (if at_marker (c # cs) then piece # split_at [c] cs else split_at (piece @ [c]) cs)"

definition re_split :: "pystr \<Rightarrow> pystr list" where
  "re_split text = split_at [] text"

text \<open>
  A result row. \<open>Date\<close> holds \<^verbatim>\<open>date_match.group(1)\<close> as it is, which for Python is a
  string or \<^verbatim>\<open>None\<close>; the other three fields are strings by construction.
\<close>

record note_row =
  Client :: pystr
  Rendering_Provider :: pystr
  Date :: "pystr option"
  Session_Time :: pystr

text \<open>Calling \<^verbatim>\<open>.strip()\<close> on a \<^verbatim>\<open>group(1)\<close> that is \<^verbatim>\<open>None\<close> raises.\<close>

datatype error = AttributeError

definition client_name_of :: "pystr \<Rightarrow> error + pystr" where
  "client_name_of block =
     (case re_search client_re block of
        None \<Rightarrow> Inr []
      | Some None \<Rightarrow> Inl AttributeError
      | Some (Some g) \<Rightarrow> Inr (strip g))"

definition provider_of :: "pystr \<Rightarrow> error + pystr" where
  "provider_of block =
     (case re_search provider_re block of
        None \<Rightarrow> Inr []
      | Some None \<Rightarrow> Inl AttributeError
      | Some (Some g) \<Rightarrow> Inr (strip g))"

definition date_value_of :: "pystr \<Rightarrow> pystr option" where
  "date_value_of block =
     (case re_search date_re block of None \<Rightarrow> Some [] | Some g \<Rightarrow> g)"

definition session_time_of :: "pystr \<Rightarrow> pystr" where
  "session_time_of block =
     (case re_search session_time_re block of
        Some (Some g) \<Rightarrow> g
      | Some None \<Rightarrow> []
      | None \<Rightarrow> [])"

text \<open>
  The body of the loop for one piece of the split: \<open>Inr None\<close> is \<^verbatim>\<open>continue\<close>,
  \<open>Inr (Some r)\<close> the row appended to \<^verbatim>\<open>results\<close>.
\<close>

definition parse_block :: "pystr \<Rightarrow> error + note_row option" where
  "parse_block piece =
     (let block = strip piece in
      if block = [] then Inr None
      else case client_name_of block of
        Inl e \<Rightarrow> Inl e
      | Inr client_name \<Rightarrow>
          if client_name = [] then Inr None
          else case provider_of block of
            Inl e \<Rightarrow> Inl e
          | Inr provider \<Rightarrow>
              Inr (Some \<lparr>Client = client_name, Rendering_Provider = provider,
                         Date = date_value_of block,
                         Session_Time = session_time_of block\<rparr>))"

fun parse_blocks :: "pystr list \<Rightarrow> note_row list \<Rightarrow> error + note_row list" where
  "parse_blocks [] results = Inr results"
| "parse_blocks (block # blocks) results =
     (case parse_block block of
        Inl e \<Rightarrow> Inl e
      | Inr None \<Rightarrow> parse_blocks blocks results
      | Inr (Some r) \<Rightarrow> parse_blocks blocks (results @ [r]))"

definition parse_notes :: "pystr \<Rightarrow> error + note_row list" where
  "parse_notes text = parse_blocks (re_split text) []"

section \<open>Notions used to state the properties\<close>

text \<open>The rows one piece of the split contributes to the result: none or one.\<close>

definition block_rows :: "pystr \<Rightarrow> note_row list" where
  "block_rows piece = (case parse_block piece of Inr (Some r) \<Rightarrow> [r] | _ \<Rightarrow> [])"

text \<open>
  The value the client search takes from the text \<open>rest\<close> that follows the marker:
  whitespace is skipped, line breaks included, then everything up to the next line
  break or comma is taken and stripped.
\<close>

definition client_after :: "pystr \<Rightarrow> pystr" where
  "client_after rest = strip (takeWhile not_nl_comma (dropWhile isspace rest))"

text \<open>
  The specification's wording of the same value: the text between the marker and the
  first line break or comma, stripped.
\<close>

definition spec_client_after :: "pystr \<Rightarrow> pystr" where
  "spec_client_after rest = strip (takeWhile not_nl_comma rest)"

text \<open>The specification's date shape: four digits, a slash, two digits, a slash, two digits.\<close>

fun spec_date_shape :: "pystr \<Rightarrow> bool" where
  "spec_date_shape [y1, y2, y3, y4, s1, m1, m2, s2, d1, d2] \<longleftrightarrow>
     digit09 y1 \<and> digit09 y2 \<and> digit09 y3 \<and> digit09 y4 \<and> s1 = 47 \<and>
     digit09 m1 \<and> digit09 m2 \<and> s2 = 47 \<and> digit09 d1 \<and> digit09 d2"
| "spec_date_shape _ \<longleftrightarrow> False"

text \<open>
  A literal of a pattern under \<^verbatim>\<open>re.IGNORECASE\<close> matches at the start of a text, and
  at some position of a text.
\<close>

definition ci_prefix :: "pystr \<Rightarrow> pystr \<Rightarrow> bool" where
  "ci_prefix m s \<longleftrightarrow> length m \<le> length s \<and> list_all2 ci m (take (length m) s)"

fun ci_occurs :: "pystr \<Rightarrow> pystr \<Rightarrow> bool" where
  "ci_occurs m [] \<longleftrightarrow> ci_prefix m []"
| "ci_occurs m (c # cs) \<longleftrightarrow> ci_prefix m (c # cs) \<or> ci_occurs m cs"

section \<open>Properties of the combinators\<close>

lemma chr1_Nil [simp]: "chr1 P k (g, []) = None"
  by (simp add: chr1_def)

lemma chr1_Cons [simp]: "chr1 P k (g, c # cs) = (if P c then k (g, cs) else None)"
  by (simp add: chr1_def)

lemma lit_eq: "lit m k (g, s) = (if prefix m s then k (g, drop (length m) s) else None)"
proof (induction m arbitrary: s)
  case Nil
  show ?case by simp
next
  case (Cons p ps)
  show ?case
  proof (cases s)
    case Nil
    then show ?thesis by simp
  next
    case (Cons c cs)
    then show ?thesis using Cons.IH [of cs] by auto
  qed
qed

lemma star_greedy:
  "k (g, dropWhile P s) \<noteq> None \<Longrightarrow> star P k (g, s) = k (g, dropWhile P s)"
  by (induction s) auto

lemma star_no_backtrack:
  "(\<And>c cs. P c \<Longrightarrow> k (g, c # cs) = None) \<Longrightarrow> star P k (g, s) = k (g, dropWhile P s)"
  by (induction s) (auto split: option.splits)

lemma take_length_dropWhile:
  "take (length xs - length (dropWhile P xs)) xs = takeWhile P xs"
proof -
  have "length xs = length (takeWhile P xs) + length (dropWhile P xs)"
    by (metis length_append takeWhile_dropWhile_id)
  then have "length xs - length (dropWhile P xs) = length (takeWhile P xs)"
    by simp
  then show ?thesis
    by (simp add: takeWhile_eq_take [symmetric])
qed

lemma group_many1:
  "group (many1 Q) accept (g, s) =
     (case s of [] \<Rightarrow> None | c # cs \<Rightarrow> if Q c then Some (Some (takeWhile Q s)) else None)"
proof (cases s)
  case Nil
  then show ?thesis by (simp add: group_def many1_def)
next
  case (Cons c cs)
  let ?k = "\<lambda>st'. accept (Some (take (length (c # cs) - length (snd st')) (c # cs)), snd st')"
  have le: "length (dropWhile Q cs) \<le> length cs"
    by (rule length_dropWhile_le)
  have "star Q ?k (g, cs) = ?k (g, dropWhile Q cs)"
    by (rule star_greedy) (simp add: accept_def)
  also have "\<dots> = Some (Some (c # takeWhile Q cs))"
    using le by (simp add: accept_def Suc_diff_le take_length_dropWhile)
  finally show ?thesis
    using Cons by (simp add: group_def many1_def)
qed

lemma star_group_None_takeWhile:
  "star P (group (many1 Q) accept) (g, s) = None \<Longrightarrow>
     takeWhile Q s = [] \<and> takeWhile Q (dropWhile P s) = []"
  by (induction s) (auto simp: group_many1 split: option.splits if_splits)

lemma star_group_Some:
  "star P (group (many1 Q) accept) (g, s) = Some x \<Longrightarrow>
     \<exists>cap. x = Some cap \<and>
       (cap \<noteq> [] \<and> cap = takeWhile Q (dropWhile P s) \<or>
        takeWhile Q (dropWhile P s) = [] \<and> (\<exists>c. cap = [c] \<and> P c))"
proof (induction s)
  case Nil
  then show ?case by (simp add: group_many1)
next
  case (Cons c cs)
  show ?case
  proof (cases "P c")
    case False
    with Cons.prems show ?thesis
      by (auto simp: group_many1 split: if_splits)
  next
    case True
    show ?thesis
    proof (cases "star P (group (many1 Q) accept) (g, cs)")
      case (Some y)
      with Cons True show ?thesis by simp
    next
      case None
      from star_group_None_takeWhile [OF None]
      have "takeWhile Q cs = []" and "takeWhile Q (dropWhile P cs) = []" by simp_all
      with Cons.prems True None show ?thesis
        by (auto simp: group_many1 split: if_splits)
    qed
  qed
qed


subsection \<open>Search\<close>

lemma search_here: "m (None, s) = Some r \<Longrightarrow> search m s = Some r"
  by (cases s) auto

lemma search_Some_D:
  "search m s = Some r \<Longrightarrow> \<exists>pre suf. s = pre @ suf \<and> m (None, suf) = Some r"
proof (induction s)
  case Nil
  then show ?case by simp
next
  case (Cons c cs)
  show ?case
  proof (cases "m (None, c # cs)")
    case (Some y)
    with Cons.prems have "m (None, c # cs) = Some r" by simp
    then show ?thesis by (intro exI [of _ "[]"] exI [of _ "c # cs"]) simp
  next
    case None
    with Cons.prems have "search m cs = Some r" by simp
    from Cons.IH [OF this] obtain pre suf where "cs = pre @ suf" "m (None, suf) = Some r"
      by blast
    then show ?thesis by (intro exI [of _ "c # pre"] exI [of _ suf]) simp
  qed
qed

lemma search_skip:
  "(\<And>p1 p2. pre = p1 @ p2 \<Longrightarrow> p2 \<noteq> [] \<Longrightarrow> m (None, p2 @ s) = None) \<Longrightarrow>
     search m (pre @ s) = search m s"
proof (induction pre)
  case Nil
  show ?case by simp
next
  case (Cons c cs)
  have "m (None, (c # cs) @ s) = None"
    by (rule Cons.prems [of "[]"]) simp_all
  moreover have "search m (cs @ s) = search m s"
  proof (rule Cons.IH)
    fix p1 p2 assume "cs = p1 @ p2" "p2 \<noteq> []"
    then show "m (None, p2 @ s) = None"
      using Cons.prems [of "c # p1" p2] by simp
  qed
  ultimately show ?case by simp
qed

lemma search_lit_None: "\<not> sublist m s \<Longrightarrow> search (lit m k) s = None"
proof (induction s)
  case Nil
  then show ?case by (auto simp: lit_eq)
next
  case (Cons c cs)
  then show ?case by (auto simp: lit_eq sublist_Cons_right)
qed

subsection \<open>strip\<close>

lemma strip_Nil [simp]: "strip [] = []"
  by (simp add: strip_def)

lemma strip_space [simp]: "isspace c \<Longrightarrow> strip [c] = []"
  by (simp add: strip_def)

lemma sublist_strip: "sublist (strip s) s"
proof -
  have "prefix (strip s) (dropWhile isspace s)"
    unfolding strip_def by (metis suffix_dropWhile suffix_to_prefix rev_rev_ident)
  then have "sublist (strip s) (dropWhile isspace s)" by (rule prefix_imp_sublist)
  moreover have "sublist (dropWhile isspace s) s"
    by (rule suffix_imp_sublist) (rule suffix_dropWhile)
  ultimately show ?thesis by (rule sublist_order.order_trans)
qed

subsection \<open>Markers\<close>

lemma str_Client: "str ''Client:'' = [67, 108, 105, 101, 110, 116, 58]"
  by (simp add: str_def)

lemma length_str [simp]: "length (str cs) = length cs"
  by (simp add: str_def)

lemma at_marker_iff: "at_marker s \<longleftrightarrow> prefix (str ''Client:'') s"
  by (simp add: at_marker_def lookahead_def lit_eq accept_def split: option.splits)

subsection \<open>The searches for the client and the provider never leave group 1 unset\<close>

lemma client_re_at:
  "client_re accept (None, s) =
     (if prefix (str ''Client:'') s
      then star isspace (group (many1 not_nl_comma) accept) (None, drop (length ''Client:'') s) else None)"
  by (simp add: client_re_def lit_eq del: length_Cons)

lemma provider_re_at:
  "provider_re accept (None, s) =
     (if prefix (str ''Rendering Provider:'') s
      then star isspace (group (many1 not_nl) accept) (None, drop (length ''Rendering Provider:'') s) else None)"
  by (simp add: provider_re_def lit_eq del: length_Cons)

lemma client_search_group: "re_search client_re s \<noteq> Some None"
proof
  assume "re_search client_re s = Some None"
  then obtain pre suf where "client_re accept (None, suf) = Some None"
    unfolding re_search_def by (blast dest: search_Some_D)
  then show False
    by (auto simp: client_re_at split: if_splits dest: star_group_Some)
qed

lemma provider_search_group: "re_search provider_re s \<noteq> Some None"
proof
  assume "re_search provider_re s = Some None"
  then obtain pre suf where "provider_re accept (None, suf) = Some None"
    unfolding re_search_def by (blast dest: search_Some_D)
  then show False
    by (auto simp: provider_re_at split: if_splits dest: star_group_Some)
qed

lemma client_name_of_Inr: "\<exists>v. client_name_of b = Inr v"
  using client_search_group [of b]
  by (auto simp: client_name_of_def split: option.splits)

lemma provider_of_Inr: "\<exists>v. provider_of b = Inr v"
  using provider_search_group [of b]
  by (auto simp: provider_of_def split: option.splits)

lemma parse_block_Inr: "\<exists>x. parse_block p = Inr x"
  using client_name_of_Inr [of "strip p"] provider_of_Inr [of "strip p"]
  by (auto simp: parse_block_def Let_def)


subsection \<open>The loop over the pieces\<close>

lemma parse_blocks_concat:
  "parse_blocks ps results = Inr (results @ concat (map block_rows ps))"
proof (induction ps arbitrary: results)
  case Nil
  show ?case by simp
next
  case (Cons p ps)
  obtain x where "parse_block p = Inr x"
    using parse_block_Inr by blast
  then show ?case
    by (cases x) (simp_all add: Cons.IH block_rows_def)
qed

lemma parse_notes_concat: "parse_notes text = Inr (concat (map block_rows (re_split text)))"
  by (simp add: parse_notes_def parse_blocks_concat)

lemma client_name_no_marker:
  "\<not> sublist (str ''Client:'') b \<Longrightarrow> client_name_of b = Inr []"
  by (simp add: client_name_of_def re_search_def client_re_def search_lit_None)

lemma block_rows_no_marker:
  assumes "\<not> sublist (str ''Client:'') p"
  shows "block_rows p = []"
proof -
  have "\<not> sublist (str ''Client:'') (strip p)"
    using assms sublist_strip [of p] sublist_order.order_trans by blast
  then have "client_name_of (strip p) = Inr []"
    by (rule client_name_no_marker)
  then show ?thesis
    by (simp add: block_rows_def parse_block_def Let_def)
qed

lemma block_rows_Nil [simp]: "block_rows [] = []"
  by (simp add: block_rows_def parse_block_def)

subsection \<open>The split\<close>

lemma marker_boundary:
  assumes "prefix (str ''Client:'') b" and "s \<noteq> []"
  shows "prefix (str ''Client:'') (s @ b) \<longleftrightarrow> prefix (str ''Client:'') s"
proof -
  have "prefix (str ''Client:'') s" if "str ''Client:'' = s @ us" "prefix us b" for us
  proof (cases us)
    case Nil
    with that show ?thesis by simp
  next
    case (Cons u us')
    from assms(1) that(2) Cons have "u = 67"
      by (cases b) (auto simp: str_Client)
    moreover from assms(2) that(1) Cons have "u \<in> set (tl (str ''Client:''))"
      by (cases s) auto
    ultimately show ?thesis by (simp add: str_Client)
  qed
  then show ?thesis by (auto simp: prefix_append)
qed

lemma concat_split_at: "concat (split_at piece s) = piece @ s"
  by (induction s arbitrary: piece) auto

lemma split_at_append:
  assumes "prefix (str ''Client:'') b"
  shows "split_at piece (a @ b) = split_at piece a @ tl (split_at [] b)"
proof (induction a arbitrary: piece)
  case Nil
  from assms obtain c cs where "b = c # cs"
    by (cases b) (auto simp: str_Client)
  with assms show ?case by (simp add: at_marker_iff)
next
  case (Cons c cs)
  have "at_marker (c # cs @ b) = at_marker (c # cs)"
    using marker_boundary [OF assms, of "c # cs"] by (simp add: at_marker_iff)
  then show ?case by (simp add: Cons.IH)
qed

lemma split_at_no_marker:
  "\<not> sublist (str ''Client:'') s \<Longrightarrow> split_at piece s = [piece @ s]"
  by (induction s arbitrary: piece) (auto simp: at_marker_iff sublist_Cons_right)

lemma re_split_append:
  "prefix (str ''Client:'') b \<Longrightarrow> re_split (a @ b) = re_split a @ tl (re_split b)"
  by (simp add: re_split_def split_at_append)

lemma re_split_marker:
  "prefix (str ''Client:'') b \<Longrightarrow> \<exists>ps. re_split b = [] # ps"
  by (cases b) (auto simp: re_split_def at_marker_iff str_Client)

lemma parse_notes_append:
  assumes "prefix (str ''Client:'') b"
  shows "parse_notes (a @ b) =
    Inr (concat (map block_rows (re_split a)) @ concat (map block_rows (re_split b)))"
proof -
  from re_split_marker [OF assms] obtain ps where "re_split b = [] # ps" ..
  then show ?thesis
    by (simp add: parse_notes_concat re_split_append [OF assms])
qed


subsection \<open>Evaluation on concrete texts\<close>

lemma rep_2: "rep 2 P = (\<lambda>k. chr1 P (chr1 P k))"
  by (simp add: eval_nat_numeral)

lemma rep_4: "rep 4 P = (\<lambda>k. chr1 P (chr1 P (chr1 P (chr1 P k))))"
  by (simp add: eval_nat_numeral)

lemmas eval_defs = parse_notes_def re_split_def at_marker_def lookahead_def accept_def chr1_def
  parse_block_def strip_def isspace_def client_name_of_def provider_of_def date_value_of_def
  session_time_of_def re_search_def client_re_def provider_re_def date_re_def session_time_re_def
  range_re_def clock_re_def group_def many1_def opt_def alt_def rep12_def digit09_def not_nl_def
  not_nl_comma_def ci_def ascii_lower_def str_def rep_2 rep_4

subsection \<open>The date pattern\<close>

lemma digit_not_space: "digit09 c \<Longrightarrow> \<not> isspace c"
  by (simp add: digit09_def isspace_def)

lemma group_date:
  "group (rep 4 digit09 \<circ> lit (str ''/'') \<circ> rep 2 digit09 \<circ> lit (str ''/'') \<circ> rep 2 digit09)
     accept (g, r) =
   (if spec_date_shape (take 10 r) then Some (Some (take 10 r)) else None)"
  by (cases r rule: spec_date_shape.cases)
    (simp_all add: group_def rep_2 rep_4 str_def accept_def)

lemma date_re_at:
  "date_re accept (None, str ''Date:'' @ rest) =
     (if spec_date_shape (take 10 (dropWhile isspace rest))
      then Some (Some (take 10 (dropWhile isspace rest))) else None)"
proof -
  let ?k = "group (rep 4 digit09 \<circ> lit (str ''/'') \<circ> rep 2 digit09 \<circ> lit (str ''/'') \<circ> rep 2 digit09) accept"
  have "star isspace ?k (None, rest) = ?k (None, dropWhile isspace rest)"
  proof (rule star_no_backtrack)
    fix c cs assume "isspace c"
    then have "\<not> spec_date_shape (take 10 (c # cs))"
      by (cases "c # cs" rule: spec_date_shape.cases) (auto dest: digit_not_space)
    then show "?k (None, c # cs) = None"
      by (simp only: group_date if_False)
  qed
  then show ?thesis
    by (simp add: date_re_def lit_eq group_date)
qed

lemma date_re_Some_D:
  assumes "date_re accept (None, s) = Some x"
  shows "\<exists>rest. s = str ''Date:'' @ rest \<and> spec_date_shape (take 10 (dropWhile isspace rest)) \<and>
           x = Some (take 10 (dropWhile isspace rest))"
proof -
  from assms have "prefix (str ''Date:'') s"
    by (auto simp: date_re_def lit_eq split: if_splits)
  then obtain rest where s: "s = str ''Date:'' @ rest"
    by (auto elim: prefixE)
  with assms show ?thesis
    by (auto simp: date_re_at split: if_splits)
qed



lemma date_value_of_cases:
  "date_value_of b = Some [] \<or>
   (\<exists>pre ws d rest. b = pre @ str ''Date:'' @ ws @ d @ rest \<and> (\<forall>c \<in> set ws. isspace c) \<and>
      spec_date_shape d \<and> date_value_of b = Some d)"
proof (cases "re_search date_re b")
  case None
  then show ?thesis by (simp add: date_value_of_def)
next
  case (Some x)
  then obtain pre suf where b: "b = pre @ suf" and m: "date_re accept (None, suf) = Some x"
    unfolding re_search_def by (blast dest: search_Some_D)
  from date_re_Some_D [OF m] obtain rest where suf: "suf = str ''Date:'' @ rest"
    and sh: "spec_date_shape (take 10 (dropWhile isspace rest))"
    and x: "x = Some (take 10 (dropWhile isspace rest))"
    by blast
  let ?ws = "takeWhile isspace rest"
  let ?r = "dropWhile isspace rest"
  have "b = pre @ str ''Date:'' @ ?ws @ take 10 ?r @ drop 10 ?r"
    using b suf by simp
  moreover have "\<forall>c \<in> set ?ws. isspace c"
    by (auto dest: set_takeWhileD)
  moreover have "date_value_of b = Some (take 10 ?r)"
    using Some x by (simp add: date_value_of_def)
  ultimately show ?thesis using sh by blast
qed

lemma date_value_of_Some: "\<exists>d. date_value_of b = Some d"
  using date_value_of_cases [of b] by blast





lemma block_rows_cases:
  "block_rows p = [] \<or> (\<exists>r. block_rows p = [r] \<and> Client r \<noteq> [] \<and> Date r \<noteq> None)"
proof -
  obtain d where "date_value_of (strip p) = Some d"
    using date_value_of_Some by blast
  then show ?thesis
    by (auto simp: block_rows_def parse_block_def Let_def split: sum.splits option.splits)
qed

lemma length_concat_block_rows:
  "length (concat (map block_rows ps)) = length (filter (\<lambda>p. block_rows p \<noteq> []) ps)"
proof (induction ps)
  case Nil
  show ?case by simp
next
  case (Cons p ps)
  then show ?case using block_rows_cases [of p] by auto
qed

subsection \<open>The client pattern at the start of a block\<close>

lemma client_search_at_marker:
  "search (client_re accept) (str ''Client:'' @ rest) =
     (case star isspace (group (many1 not_nl_comma) accept) (None, rest) of
        Some x \<Rightarrow> Some x
      | None \<Rightarrow> search (client_re accept) rest)"
  by (simp add: client_re_def str_Client split: option.split)

lemma star_group_strip:
  assumes "star isspace (group (many1 Q) accept) (g, s) = Some x"
  shows "\<exists>cap. x = Some cap \<and> strip cap = strip (takeWhile Q (dropWhile isspace s))"
  using star_group_Some [OF assms] by auto

lemma star_group_nonempty:
  assumes "star isspace (group (many1 Q) accept) (g, s) = None"
  shows "strip (takeWhile Q (dropWhile isspace s)) = []"
  using star_group_None_takeWhile [OF assms] by simp

lemma client_name_of_block:
  assumes "\<not> sublist (str ''Client:'') rest"
  shows "client_name_of (str ''Client:'' @ rest) = Inr (client_after rest)"
proof (cases "star isspace (group (many1 not_nl_comma) accept) (None, rest)")
  case None
  have "search (client_re accept) rest = None"
    unfolding client_re_def o_def using assms by (rule search_lit_None)
  with None show ?thesis
    by (simp add: client_name_of_def re_search_def client_search_at_marker client_after_def
        star_group_nonempty)
next
  case (Some x)
  from star_group_strip [OF Some] obtain cap where "x = Some cap"
    and "strip cap = strip (takeWhile not_nl_comma (dropWhile isspace rest))"
    by blast
  with Some show ?thesis
    by (simp add: client_name_of_def re_search_def client_search_at_marker client_after_def)
qed

subsection \<open>The session time pattern\<close>

lemma ci_prefix_Nil [simp]: "ci_prefix [] s"
  by (simp add: ci_prefix_def)

lemma ci_prefix_Cons_Nil [simp]: "\<not> ci_prefix (p # ps) []"
  by (simp add: ci_prefix_def)

lemma ci_prefix_Cons_Cons [simp]:
  "ci_prefix (p # ps) (c # cs) \<longleftrightarrow> ci p c \<and> ci_prefix ps cs"
  by (auto simp: ci_prefix_def)

lemma lit_i_eq:
  "lit_i m k (g, s) = (if ci_prefix m s then k (g, drop (length m) s) else None)"
proof (induction m arbitrary: s)
  case Nil
  show ?case by simp
next
  case (Cons p ps)
  show ?case
  proof (cases s)
    case Nil
    then show ?thesis by simp
  next
    case (Cons c cs)
    then show ?thesis using Cons.IH [of cs] by auto
  qed
qed

lemma ci_prefix_all2: "list_all2 ci m m' \<Longrightarrow> ci_prefix m (m' @ rest)"
  by (simp add: ci_prefix_def list_all2_lengthD)

lemma ci_prefix_shorten:
  "ci_prefix m (xs @ ys) \<Longrightarrow> length m \<le> length xs \<Longrightarrow> ci_prefix m xs"
  by (simp add: ci_prefix_def)

lemma ci_occurs_suffix: "ci_prefix m b \<Longrightarrow> ci_occurs m (a @ b)"
proof (induction a)
  case Nil
  then show ?case by (cases b) simp_all
next
  case (Cons c cs)
  then show ?case by simp
qed

lemma opt_accept_Some: "opt r accept st \<noteq> None"
  by (simp add: opt_def accept_def split: option.splits)

lemma session_time_re_at:
  assumes "list_all2 ci (str ''Session Time:'') m'"
  shows "session_time_re accept (None, m' @ rest) =
     opt (alt (group range_re) (lit_i (str ''-''))) accept (None, dropWhile isspace rest)"
proof -
  have "length m' = length (str ''Session Time:'')"
    using list_all2_lengthD [OF assms] by (simp only:)
  then show ?thesis
    using ci_prefix_all2 [OF assms, of rest]
    by (simp add: session_time_re_def lit_i_eq star_greedy opt_accept_Some del: length_str)
qed

lemma session_search_here:
  assumes "list_all2 ci (str ''Session Time:'') m'"
  shows "search (session_time_re accept) (m' @ rest) =
     opt (alt (group range_re) (lit_i (str ''-''))) accept (None, dropWhile isspace rest)"
proof -
  obtain r where r: "opt (alt (group range_re) (lit_i (str ''-''))) accept
      (None, dropWhile isspace rest) = Some r"
    using opt_accept_Some by blast
  then have "session_time_re accept (None, m' @ rest) = Some r"
    by (simp add: session_time_re_at [OF assms])
  then have "search (session_time_re accept) (m' @ rest) = Some r"
    by (rule search_here)
  with r show ?thesis by simp
qed

lemma session_search_first:
  assumes "list_all2 ci (str ''Session Time:'') m'"
    and "\<not> ci_occurs (str ''Session Time:'') (pre @ butlast m')"
  shows "search (session_time_re accept) (pre @ m' @ rest) =
     opt (alt (group range_re) (lit_i (str ''-''))) accept (None, dropWhile isspace rest)"
proof -
  have len: "length m' = length (str ''Session Time:'')"
    using list_all2_lengthD [OF assms(1)] by (simp only:)
  then have ne: "m' \<noteq> []" by auto
  have "search (session_time_re accept) (pre @ m' @ rest) =
        search (session_time_re accept) (m' @ rest)"
  proof (rule search_skip)
    fix p1 p2 assume pre: "pre = p1 @ p2" and p2: "p2 \<noteq> []"
    have "\<not> ci_prefix (str ''Session Time:'') (p2 @ m' @ rest)"
    proof
      assume p: "ci_prefix (str ''Session Time:'') (p2 @ m' @ rest)"
      have "p2 @ m' @ rest = (p2 @ butlast m') @ last m' # rest"
        using ne by simp
      moreover have "length (str ''Session Time:'') \<le> length (p2 @ butlast m')"
        using p2 len by (cases p2) simp_all
      ultimately have "ci_prefix (str ''Session Time:'') (p2 @ butlast m')"
        using p ci_prefix_shorten by metis
      then have "ci_occurs (str ''Session Time:'') (p1 @ p2 @ butlast m')"
        by (rule ci_occurs_suffix)
      with assms(2) pre show False by simp
    qed
    then show "session_time_re accept (None, p2 @ m' @ rest) = None"
      by (simp add: session_time_re_def lit_i_eq)
  qed
  also have "\<dots> = opt (alt (group range_re) (lit_i (str ''-''))) accept (None, dropWhile isspace rest)"
    using assms(1) by (rule session_search_here)
  finally show ?thesis .
qed

lemma ci_ascii_lower: "ascii_lower c = ascii_lower p \<Longrightarrow> ci p c"
  by (auto simp: ci_def ascii_lower_def Let_def split: if_splits)

lemma ci_casing:
  assumes "map ascii_lower m' = map ascii_lower m"
  shows "list_all2 ci m m'"
proof -
  have "list_all2 (=) (map ascii_lower m) (map ascii_lower m')"
    using assms [symmetric] by (simp only: list_all2_eq)
  then have "list_all2 (\<lambda>p c. ascii_lower p = ascii_lower c) m m'"
    by (simp add: list_all2_map1 list_all2_map2)
  then show ?thesis
    by (rule list_all2_mono) (simp add: ci_ascii_lower)
qed

subsection \<open>The pieces of the split are blocks\<close>

lemma split_at_nonempty: "split_at piece s \<noteq> []"
  by (induction s arbitrary: piece) auto

lemma hd_split_at_prefix: "prefix (hd (split_at piece s)) (piece @ s)"
proof (induction s arbitrary: piece)
  case Nil
  show ?case by simp
next
  case (Cons c cs)
  show ?case using Cons.IH [of "piece @ [c]"] by simp
qed

lemma hd_split_at_marker:
  "piece \<noteq> [] \<Longrightarrow> prefix (str ''Client:'') (piece @ s) \<Longrightarrow>
     prefix (str ''Client:'') (hd (split_at piece s))"
proof (induction s arbitrary: piece)
  case Nil
  then show ?case by simp
next
  case (Cons c cs)
  show ?case
  proof (cases "at_marker (c # cs)")
    case True
    then have "prefix (str ''Client:'') (c # cs)" by (simp add: at_marker_iff)
    from marker_boundary [OF this Cons.prems(1)] Cons.prems(2) True show ?thesis by simp
  next
    case False
    with Cons.IH [of "piece @ [c]"] Cons.prems show ?thesis by simp
  qed
qed

lemma tl_split_at_marker:
  "p \<in> set (tl (split_at piece s)) \<Longrightarrow> prefix (str ''Client:'') p"
proof (induction s arbitrary: piece)
  case Nil
  then show ?case by simp
next
  case (Cons c cs)
  show ?case
  proof (cases "at_marker (c # cs)")
    case True
    with Cons.prems have "p \<in> set (split_at [c] cs)" by simp
    then have "p = hd (split_at [c] cs) \<or> p \<in> set (tl (split_at [c] cs))"
      using split_at_nonempty [of "[c]" cs] by (cases "split_at [c] cs") auto
    moreover have "prefix (str ''Client:'') (hd (split_at [c] cs))"
      using True by (intro hd_split_at_marker) (simp_all add: at_marker_iff)
    ultimately show ?thesis using Cons.IH by blast
  next
    case False
    with Cons show ?thesis by simp
  qed
qed

lemma sublist_tl_split:
  assumes "sublist m (tl piece)" and "m \<noteq> []"
  shows "\<exists>a b. piece = a @ b \<and> a \<noteq> [] \<and> b \<noteq> [] \<and> prefix m b"
proof -
  from assms(1) obtain x y where t: "tl piece = x @ m @ y"
    by (auto simp: sublist_def)
  with assms(2) have "piece \<noteq> []" by auto
  then have "piece = (hd piece # x) @ (m @ y)"
    using t by (cases piece) simp_all
  then show ?thesis using assms(2) by (metis Nil_is_append_conv list.distinct(1) prefixI)
qed

lemma split_at_no_inner_marker:
  assumes "\<And>a b. piece = a @ b \<Longrightarrow> a \<noteq> [] \<Longrightarrow> b \<noteq> [] \<Longrightarrow> \<not> prefix (str ''Client:'') (b @ s)"
    and "p \<in> set (split_at piece s)"
  shows "\<not> sublist (str ''Client:'') (tl p)"
  using assms
proof (induction s arbitrary: piece)
  case Nil
  then have "p = piece" by simp
  show ?case
  proof
    assume "sublist (str ''Client:'') (tl p)"
    then obtain a b where "piece = a @ b" "a \<noteq> []" "b \<noteq> []" "prefix (str ''Client:'') b"
      using sublist_tl_split [of "str ''Client:''" piece] \<open>p = piece\<close> by (auto simp: str_Client)
    with Nil.prems(1) [of a b] show False by simp
  qed
next
  case (Cons c cs)
  have here: "\<not> sublist (str ''Client:'') (tl piece)"
  proof
    assume "sublist (str ''Client:'') (tl piece)"
    then obtain a b where ab: "piece = a @ b" "a \<noteq> []" "b \<noteq> []" "prefix (str ''Client:'') b"
      using sublist_tl_split [of "str ''Client:''" piece] by (auto simp: str_Client)
    then have "prefix (str ''Client:'') (b @ c # cs)" by (simp add: prefix_prefix)
    with Cons.prems(1) [OF ab(1-3)] show False by simp
  qed
  show ?case
  proof (cases "at_marker (c # cs)")
    case True
    with Cons.prems(2) have "p = piece \<or> p \<in> set (split_at [c] cs)" by simp
    moreover have "\<not> sublist (str ''Client:'') (tl p)" if "p \<in> set (split_at [c] cs)"
    proof (rule Cons.IH [OF _ that])
      fix a b :: pystr assume "[c] = a @ b" "a \<noteq> []" "b \<noteq> []"
      then have False by (cases a) auto
      then show "\<not> prefix (str ''Client:'') (b @ cs)" ..
    qed
    ultimately show ?thesis using here by blast
  next
    case False
    with Cons.prems(2) have mem: "p \<in> set (split_at (piece @ [c]) cs)" by simp
    show ?thesis
    proof (rule Cons.IH [OF _ mem])
      fix a b :: pystr assume ab: "piece @ [c] = a @ b" "a \<noteq> []" "b \<noteq> []"
      from ab(3) obtain b' x where b: "b = b' @ [x]" by (cases b rule: rev_cases) auto
      with ab(1) have pc: "piece = a @ b'" "x = c" by simp_all
      show "\<not> prefix (str ''Client:'') (b @ cs)"
      proof (cases "b' = []")
        case True
        with b pc False show ?thesis by (simp add: at_marker_iff)
      next
        case False
        from Cons.prems(1) [OF pc(1) ab(2) False] b pc show ?thesis by simp
      qed
    qed
  qed
qed

lemma strip_marker_block:
  "strip (str ''Client:'' @ rest) = str ''Client:'' @ rev (dropWhile isspace (rev rest))"
  by (simp add: strip_def str_Client isspace_def dropWhile_append)

lemma re_split_block:
  assumes "p \<in> set (tl (re_split text))"
  shows "\<exists>rest. strip p = str ''Client:'' @ rest \<and> \<not> sublist (str ''Client:'') rest"
proof -
  from assms have "prefix (str ''Client:'') p"
    unfolding re_split_def by (rule tl_split_at_marker)
  then obtain rest where p: "p = str ''Client:'' @ rest"
    by (auto elim: prefixE)
  have "p \<in> set (re_split text)"
    using assms by (cases "re_split text") auto
  then have "\<not> sublist (str ''Client:'') (tl p)"
    unfolding re_split_def by (intro split_at_no_inner_marker [of "[]" "text"]) simp_all
  moreover have "suffix rest (tl p)"
    using p by (simp add: str_Client suffix_def)
  moreover have "prefix (rev (dropWhile isspace (rev rest))) rest"
    by (metis suffix_dropWhile suffix_to_prefix rev_rev_ident)
  ultimately have "\<not> sublist (str ''Client:'') (rev (dropWhile isspace (rev rest)))"
    by (meson prefix_imp_sublist suffix_imp_sublist sublist_order.order_trans)
  with p show ?thesis by (simp add: strip_marker_block)
qed

lemma re_split_preamble: "\<not> sublist (str ''Client:'') (hd (re_split text))"
proof (cases "at_marker text")
  case True
  then obtain c cs where "text = c # cs"
    by (cases "text") (auto simp: at_marker_iff str_Client)
  with True show ?thesis by (simp add: re_split_def str_Client)
next
  case False
  have "prefix (hd (re_split text)) text"
    unfolding re_split_def using hd_split_at_prefix [of "[]" "text"] by simp
  with False have "\<not> prefix (str ''Client:'') (hd (re_split text))"
    using at_marker_iff prefix_order.order_trans by blast
  moreover have "\<not> sublist (str ''Client:'') (tl (hd (re_split text)))"
    unfolding re_split_def
    by (rule split_at_no_inner_marker [of "[]" "text"]) (simp_all add: split_at_nonempty)
  ultimately show ?thesis
    by (cases "hd (re_split text)") (simp_all add: sublist_Cons_right str_Client)
qed

lemma client_field_block:
  assumes "strip piece = str ''Client:'' @ rest" and "\<not> sublist (str ''Client:'') rest"
  shows "(client_after rest = [] \<longrightarrow> parse_block piece = Inr None) \<and>
         (client_after rest \<noteq> [] \<longrightarrow>
            (\<exists>r. parse_block piece = Inr (Some r) \<and> Client r = client_after rest))"
proof -
  have c: "client_name_of (strip piece) = Inr (client_after rest)"
    using assms by (simp add: client_name_of_block)
  obtain v where "provider_of (strip piece) = Inr v"
    using provider_of_Inr by blast
  with c assms(1) show ?thesis
    by (simp add: parse_block_def Let_def str_Client)
qed

section \<open>The claims\<close>

text \<open>
  C3. A text in which the marker \<^verbatim>\<open>Client:\<close> does not occur gives the empty list of
  rows.
\<close>

theorem no_marker_no_rows:
  "\<not> sublist (str ''Client:'') text \<Longrightarrow> parse_notes text = Inr []"
  by (simp add: parse_notes_concat re_split_def split_at_no_marker block_rows_no_marker)

theorem no_marker_no_rows_witness:
  "\<not> sublist (str ''Client:'') (str ''--- Page 1 ---'' @ [10] @ str ''client: Bob'') \<and>
   parse_notes (str ''--- Page 1 ---'' @ [10] @ str ''client: Bob'') = Inr []"
proof -
  have h: "\<not> sublist (str ''Client:'') (str ''--- Page 1 ---'' @ [10] @ str ''client: Bob'')"
    by (simp add: str_def sublist_Cons_right)
  from h no_marker_no_rows [OF h] show ?thesis by blast
qed

text \<open>
  C8. Splitting stability: when two texts each begin with \<^verbatim>\<open>Client:\<close> and each gives
  exactly one row on its own, their concatenation gives exactly these two rows, in the
  order of the concatenation.
\<close>

theorem split_stable:
  assumes "prefix (str ''Client:'') a" and "prefix (str ''Client:'') b"
    and "parse_notes a = Inr [r1]" and "parse_notes b = Inr [r2]"
  shows "parse_notes (a @ b) = Inr [r1, r2]"
  using assms(3,4) parse_notes_append [OF assms(2), of a]
  by (simp add: parse_notes_concat)

theorem split_stable_witness:
  "parse_notes ((str ''Client: Ann, 7'' @ [10] @ str ''Date: 2024/01/15'' @ [10]) @
                (str ''Client: Bob'' @ [10] @ str ''Session Time: 9:00-10:00'')) =
     Inr [\<lparr>Client = str ''Ann'', Rendering_Provider = [], Date = Some (str ''2024/01/15''),
            Session_Time = []\<rparr>,
          \<lparr>Client = str ''Bob'', Rendering_Provider = [], Date = Some [],
            Session_Time = str ''9:00-10:00''\<rparr>]"
proof -
  let ?a = "str ''Client: Ann, 7'' @ [10] @ str ''Date: 2024/01/15'' @ [10]"
  let ?b = "str ''Client: Bob'' @ [10] @ str ''Session Time: 9:00-10:00''"
  have pa: "prefix (str ''Client:'') ?a" by (simp add: str_def)
  have pb: "prefix (str ''Client:'') ?b" by (simp add: str_def)
  have ra: "parse_notes ?a = Inr [\<lparr>Client = str ''Ann'', Rendering_Provider = [],
      Date = Some (str ''2024/01/15''), Session_Time = []\<rparr>]"
    by (simp add: eval_defs)
  have rb: "parse_notes ?b = Inr [\<lparr>Client = str ''Bob'', Rendering_Provider = [],
      Date = Some [], Session_Time = str ''9:00-10:00''\<rparr>]"
    by (simp add: eval_defs)
  show ?thesis by (rule split_stable [OF pa pb ra rb])
qed

text \<open>
  C9. A block from which no non-empty client name can be taken gives no row: the body of
  the loop continues, and the result of the whole loop is the result of the loop without
  that block, whatever the blocks before and after it and the rows collected so far. On
  texts: when a text that begins with \<^verbatim>\<open>Client:\<close> and gives no row stands between a
  text and a text that begins with \<^verbatim>\<open>Client:\<close>, the result is the result without it.
  The result type has no place for a placeholder, a count or an error for the block.
\<close>

theorem invalid_block_dropped:
  "(client_name_of (strip p) = Inr [] \<longrightarrow>
      parse_block p = Inr None \<and>
      parse_blocks (ps @ p # qs) results = parse_blocks (ps @ qs) results) \<and>
   (prefix (str ''Client:'') b \<and> prefix (str ''Client:'') c \<and> parse_notes b = Inr [] \<longrightarrow>
      parse_notes (a @ b @ c) = parse_notes (a @ c))"
proof -
  have "parse_block p = Inr None \<and>
      parse_blocks (ps @ p # qs) results = parse_blocks (ps @ qs) results"
    if "client_name_of (strip p) = Inr []"
  proof -
    from that have "parse_block p = Inr None"
      by (simp add: parse_block_def Let_def)
    then show ?thesis
      by (simp add: parse_blocks_concat block_rows_def)
  qed
  moreover have "parse_notes (a @ b @ c) = parse_notes (a @ c)"
    if b: "prefix (str ''Client:'') b" and c: "prefix (str ''Client:'') c"
      and e: "parse_notes b = Inr []"
  proof -
    from b have "prefix (str ''Client:'') (b @ c)"
      by (rule prefix_prefix)
    then have "parse_notes (a @ b @ c) =
        Inr (concat (map block_rows (re_split a)) @ concat (map block_rows (re_split (b @ c))))"
      by (rule parse_notes_append)
    moreover have "concat (map block_rows (re_split (b @ c))) = concat (map block_rows (re_split c))"
      using parse_notes_append [OF c, of b] e by (simp add: parse_notes_concat)
    ultimately show ?thesis
      by (simp add: parse_notes_append [OF c, of a])
  qed
  ultimately show ?thesis by blast
qed

theorem invalid_block_dropped_witness:
  "parse_block (str ''Client: , 12'' @ [10]) = Inr None \<and>
   parse_blocks ([str ''Client: Ann''] @ (str ''Client: , 12'' @ [10]) # [str ''Client: Bob'']) [] =
     parse_blocks ([str ''Client: Ann''] @ [str ''Client: Bob'']) [] \<and>
   parse_notes (str ''Client: Ann'' @ (str ''Client: , 12'' @ [10]) @ str ''Client: Bob'') =
     parse_notes (str ''Client: Ann'' @ str ''Client: Bob'')"
proof -
  have h: "client_name_of (strip (str ''Client: , 12'' @ [10])) = Inr []"
    by (simp add: eval_defs)
  have pb: "prefix (str ''Client:'') (str ''Client: , 12'' @ [10])"
    by (simp add: str_def)
  have pc: "prefix (str ''Client:'') (str ''Client: Bob'')"
    by (simp add: str_def)
  have e: "parse_notes (str ''Client: , 12'' @ [10]) = Inr []"
    by (simp add: eval_defs)
  from invalid_block_dropped
    [of "str ''Client: , 12'' @ [10]" "[str ''Client: Ann'']" "[str ''Client: Bob'']" "[]"
      "str ''Client: , 12'' @ [10]" "str ''Client: Bob''" "str ''Client: Ann''"]
    h pb pc e
  show ?thesis by blast
qed

text \<open>
  C6. The end-to-end example of the specification gives exactly one row, with the four
  fields as stated.
\<close>

theorem end_to_end_example:
  "parse_notes (str ''Client: Jane Doe, ID 123'' @ [10] @ str ''Rendering Provider: Dr. Smith'' @ [10] @
                str ''Date: 2024/01/15'' @ [10] @ str ''Session Time: 9:00-10:00'' @ [10]) =
     Inr [\<lparr>Client = str ''Jane Doe'', Rendering_Provider = str ''Dr. Smith'',
            Date = Some (str ''2024/01/15''), Session_Time = str ''9:00-10:00''\<rparr>]"
  by (simp add: eval_defs)

text \<open>
  C4. Every row of the result has a non-empty client name. The pieces of the split,
  put together in their order, are the text, and the result is the concatenation, in the
  order of the pieces, of what each piece contributes, which is no row or one row: rows
  are neither merged nor removed, so there are as many rows as pieces that give one, also
  when two blocks carry the same client name.
\<close>

theorem rows_in_block_order:
  "parse_notes text = Inr (concat (map block_rows (re_split text))) \<and>
   concat (re_split text) = text \<and>
   (\<forall>r \<in> set (concat (map block_rows (re_split text))). Client r \<noteq> []) \<and>
   length (concat (map block_rows (re_split text))) =
     length (filter (\<lambda>p. block_rows p \<noteq> []) (re_split text))"
proof -
  have "Client r \<noteq> []" if "r \<in> set (concat (map block_rows (re_split text)))" for r
  proof -
    from that obtain p where "r \<in> set (block_rows p)" by auto
    then show ?thesis using block_rows_cases [of p] by auto
  qed
  then show ?thesis
    by (simp add: parse_notes_concat length_concat_block_rows re_split_def concat_split_at)
qed

theorem rows_in_block_order_witness:
  "parse_notes (str ''Client: Ann'' @ [10] @ str ''Date: 2024/01/15'' @ [10] @
                str ''Client: Ann'' @ [10] @ str ''Date: 2024/02/20'') =
     Inr [\<lparr>Client = str ''Ann'', Rendering_Provider = [], Date = Some (str ''2024/01/15''),
            Session_Time = []\<rparr>,
          \<lparr>Client = str ''Ann'', Rendering_Provider = [], Date = Some (str ''2024/02/20''),
            Session_Time = []\<rparr>] \<and>
   length (filter (\<lambda>p. block_rows p \<noteq> [])
     (re_split (str ''Client: Ann'' @ [10] @ str ''Date: 2024/01/15'' @ [10] @
                str ''Client: Ann'' @ [10] @ str ''Date: 2024/02/20''))) = 2"
proof -
  let ?t = "str ''Client: Ann'' @ [10] @ str ''Date: 2024/01/15'' @ [10] @
            str ''Client: Ann'' @ [10] @ str ''Date: 2024/02/20''"
  have e: "parse_notes ?t =
     Inr [\<lparr>Client = str ''Ann'', Rendering_Provider = [], Date = Some (str ''2024/01/15''),
            Session_Time = []\<rparr>,
          \<lparr>Client = str ''Ann'', Rendering_Provider = [], Date = Some (str ''2024/02/20''),
            Session_Time = []\<rparr>]"
    by (simp add: eval_defs)
  from rows_in_block_order [of ?t] e show ?thesis
    by (metis Inr_inject length_Cons list.size(3) numeral_2_eq_2)
qed

text \<open>
  C5. \<^verbatim>\<open>parse_notes\<close> is total: for every text it returns a list of rows and raises
  nothing, and every field of every row is a string (the date is never \<^verbatim>\<open>None\<close>).
\<close>

theorem parse_notes_total:
  "\<exists>rows. parse_notes text = Inr rows \<and> (\<forall>r \<in> set rows. Date r \<noteq> None)"
proof -
  have "Date r \<noteq> None" if "r \<in> set (concat (map block_rows (re_split text)))" for r
  proof -
    from that obtain p where "r \<in> set (block_rows p)" by auto
    then show ?thesis using block_rows_cases [of p] by auto
  qed
  then show ?thesis
    by (simp add: parse_notes_concat)
qed

theorem parse_notes_total_witness:
  "(\<exists>rows. parse_notes (str ''Client: Ann'' @ [10] @ str ''Date: tomorrow'') = Inr rows \<and>
     (\<forall>r \<in> set rows. Date r \<noteq> None)) \<and>
   parse_notes (str ''Client: Ann'' @ [10] @ str ''Date: tomorrow'') =
     Inr [\<lparr>Client = str ''Ann'', Rendering_Provider = [], Date = Some [], Session_Time = []\<rparr>]"
proof -
  have "parse_notes (str ''Client: Ann'' @ [10] @ str ''Date: tomorrow'') =
     Inr [\<lparr>Client = str ''Ann'', Rendering_Provider = [], Date = Some [], Session_Time = []\<rparr>]"
    by (simp add: eval_defs)
  with parse_notes_total [of "str ''Client: Ann'' @ [10] @ str ''Date: tomorrow''"]
  show ?thesis by blast
qed




text \<open>
  C1, as the code has it. Take any piece of the split of a text. When the piece,
  stripped, begins with \<^verbatim>\<open>Client:\<close>, the search first skips the whitespace after the
  marker, line breaks included, and then takes the text up to the first line break or
  comma; the client name is that text, stripped. When it is empty the piece gives no row;
  when it is not, the piece gives a row whose client is that non-empty text. A piece
  that does not begin with the marker gives no row.
\<close>

theorem client_field:
  assumes "piece \<in> set (re_split text)"
  shows "(\<forall>rest. strip piece = str ''Client:'' @ rest \<longrightarrow>
            (client_after rest = [] \<longrightarrow> parse_block piece = Inr None) \<and>
            (client_after rest \<noteq> [] \<longrightarrow>
               (\<exists>r. parse_block piece = Inr (Some r) \<and> Client r = client_after rest))) \<and>
         ((\<forall>rest. strip piece \<noteq> str ''Client:'' @ rest) \<longrightarrow> parse_block piece = Inr None)"
proof -
  from assms have "piece = hd (re_split text) \<or> piece \<in> set (tl (re_split text))"
    by (cases "re_split text") auto
  then show ?thesis
  proof
    assume "piece \<in> set (tl (re_split text))"
    then obtain rest0 where "strip piece = str ''Client:'' @ rest0"
      and "\<not> sublist (str ''Client:'') rest0"
      using re_split_block by blast
    then show ?thesis
      using client_field_block [of piece rest0] by auto
  next
    assume "piece = hd (re_split text)"
    then have no: "\<not> sublist (str ''Client:'') piece"
      by (simp add: re_split_preamble)
    then have "\<not> sublist (str ''Client:'') (strip piece)"
      using sublist_strip [of piece] sublist_order.order_trans by blast
    then have a: "strip piece \<noteq> str ''Client:'' @ rest" for rest
      by (metis sublist_appendI append_Nil)
    from no have "block_rows piece = []"
      by (rule block_rows_no_marker)
    then have "parse_block piece = Inr None"
      using parse_block_Inr [of piece]
      by (auto simp: block_rows_def split: option.splits)
    with a show ?thesis by simp
  qed
qed

theorem client_field_witness:
  "(\<exists>r. parse_block (str ''Client: Jane Doe, ID 123'' @ [10] @ str ''Date: 2024/01/15'' @ [10]) =
        Inr (Some r) \<and> Client r = str ''Jane Doe'') \<and>
   parse_block (str ''Client: '' @ [10] @ str '', Jane Doe'') = Inr None \<and>
   parse_block (str ''--- Page 1 ---'' @ [10]) = Inr None"
proof -
  let ?p0 = "str ''--- Page 1 ---'' @ [10]"
  let ?p1 = "str ''Client: Jane Doe, ID 123'' @ [10] @ str ''Date: 2024/01/15'' @ [10]"
  let ?p2 = "str ''Client: '' @ [10] @ str '', Jane Doe''"
  let ?r1 = "str '' Jane Doe, ID 123'' @ [10] @ str ''Date: 2024/01/15''"
  let ?r2 = "str '' '' @ [10] @ str '', Jane Doe''"
  have sp: "re_split (?p0 @ ?p1 @ ?p2) = [?p0, ?p1, ?p2]"
    by (simp add: re_split_def at_marker_def lookahead_def accept_def str_def)
  have s0: "strip ?p0 \<noteq> str ''Client:'' @ rest" for rest
    by (simp add: strip_def isspace_def str_def)
  have s1: "strip ?p1 = str ''Client:'' @ ?r1"
    by (simp add: strip_def isspace_def str_def)
  have v1: "client_after ?r1 = str ''Jane Doe''"
    by (simp add: client_after_def strip_def isspace_def not_nl_comma_def str_def)
  have s2: "strip ?p2 = str ''Client:'' @ ?r2"
    by (simp add: strip_def isspace_def str_def)
  have v2: "client_after ?r2 = []"
    by (simp add: client_after_def strip_def isspace_def not_nl_comma_def str_def)
  have ne: "str ''Jane Doe'' \<noteq> []"
    by (simp add: str_def)
  have m0: "?p0 \<in> set (re_split (?p0 @ ?p1 @ ?p2))"
    and m1: "?p1 \<in> set (re_split (?p0 @ ?p1 @ ?p2))"
    and m2: "?p2 \<in> set (re_split (?p0 @ ?p1 @ ?p2))"
    by (simp_all only: sp list.set insert_iff simp_thms)
  from client_field [OF m1] s1 v1 ne
  have "\<exists>r. parse_block ?p1 = Inr (Some r) \<and> Client r = str ''Jane Doe''"
    by metis
  moreover from client_field [OF m2] s2 v2 have "parse_block ?p2 = Inr None"
    by metis
  moreover from client_field [OF m0] s0 have "parse_block ?p0 = Inr None"
    by metis
  ultimately show ?thesis by blast
qed

text \<open>
  The wording of the specification takes the text between the marker and the first line
  break or comma. On a block whose marker is followed directly by a line break that text
  is empty, while the row is emitted with the name found on the next line.
\<close>

theorem client_field_counterexample:
  "parse_notes (str ''Client:'' @ [10] @ str ''Jane Doe'') =
     Inr [\<lparr>Client = str ''Jane Doe'', Rendering_Provider = [], Date = Some [],
            Session_Time = []\<rparr>] \<and>
   spec_client_after ([10] @ str ''Jane Doe'') = [] \<and>
   str ''Jane Doe'' \<noteq> spec_client_after ([10] @ str ''Jane Doe'')"
  by (simp add: eval_defs spec_client_after_def)

text \<open>
  C2. On a block whose session time line is followed by another line, the session time
  is the range together with the line break after it: group 1 of the pattern ends with
  \<^verbatim>\<open>\s*(?:AM|PM)?\<close>, the whitespace after the second clock time belongs to the group
  also when no meridiem follows, and the value is stored without \<^verbatim>\<open>.strip()\<close>. The two
  inputs the claim names do give the values it states.
\<close>

theorem session_time_trailing_whitespace:
  "parse_notes (str ''Client: A'' @ [10] @ str ''Session Time: 9:00-10:00'' @ [10] @
                str ''Date: 2024/01/15'') =
     Inr [\<lparr>Client = str ''A'', Rendering_Provider = [], Date = Some (str ''2024/01/15''),
            Session_Time = str ''9:00-10:00'' @ [10]\<rparr>] \<and>
   strip (str ''9:00-10:00'' @ [10]) \<noteq> str ''9:00-10:00'' @ [10] \<and>
   session_time_of (str ''Client: A'' @ [10] @ str ''Session Time: -'') = [] \<and>
   session_time_of (str ''Client: A'' @ [10] @ str ''Session Time: 9:00 AM - 10:00 AM'' @ [10] @
                    str ''Date: 2024/01/15'') = str ''9:00 AM - 10:00 AM''"
  by (simp add: eval_defs)

text \<open>
  C10. The marker of the session time is matched in any casing: when the marker, in
  some casing, stands in a block and does not match (case ignored) at an earlier
  position, the session time is the one read with \<^verbatim>\<open>Session Time:\<close> as written. The
  markers of the client, the provider and the date are matched as written only: a block
  without the exact marker gives the empty value for that field.
\<close>

theorem session_marker_any_casing:
  "(map ascii_lower m' = map ascii_lower (str ''Session Time:'') \<and>
    \<not> ci_occurs (str ''Session Time:'') (pre @ butlast m') \<longrightarrow>
      session_time_of (pre @ m' @ rest) = session_time_of (str ''Session Time:'' @ rest)) \<and>
   (\<not> sublist (str ''Client:'') b \<longrightarrow> client_name_of b = Inr []) \<and>
   (\<not> sublist (str ''Rendering Provider:'') b \<longrightarrow> provider_of b = Inr []) \<and>
   (\<not> sublist (str ''Date:'') b \<longrightarrow> date_value_of b = Some [])"
proof -
  have "session_time_of (pre @ m' @ rest) = session_time_of (str ''Session Time:'' @ rest)"
    if "map ascii_lower m' = map ascii_lower (str ''Session Time:'')"
      and "\<not> ci_occurs (str ''Session Time:'') (pre @ butlast m')"
  proof -
    have "list_all2 ci (str ''Session Time:'') m'"
      using that(1) by (rule ci_casing)
    moreover have "list_all2 ci (str ''Session Time:'') (str ''Session Time:'')"
      by (rule ci_casing) simp
    ultimately show ?thesis
      using that(2)
      by (simp add: session_time_of_def re_search_def session_search_first session_search_here)
  qed
  moreover have "client_name_of b = Inr []" if "\<not> sublist (str ''Client:'') b"
    using that by (rule client_name_no_marker)
  moreover have "provider_of b = Inr []" if "\<not> sublist (str ''Rendering Provider:'') b"
    using that by (simp add: provider_of_def re_search_def provider_re_def search_lit_None)
  moreover have "date_value_of b = Some []" if "\<not> sublist (str ''Date:'') b"
    using that by (simp add: date_value_of_def re_search_def date_re_def search_lit_None)
  ultimately show ?thesis by blast
qed

theorem session_marker_any_casing_witness:
  "session_time_of (str ''Client: A'' @ [10] @ str ''SESSION time:'' @ str '' 9:00 am - 10:00 PM'') =
     str ''9:00 am - 10:00 PM'' \<and>
   session_time_of (str ''Session Time:'' @ str '' 9:00 am - 10:00 PM'') = str ''9:00 am - 10:00 PM'' \<and>
   client_name_of (str ''client: Bob'') = Inr [] \<and>
   provider_of (str ''Client: Bob'' @ [10] @ str ''rendering provider: Dr. Smith'') = Inr [] \<and>
   date_value_of (str ''Client: Bob'' @ [10] @ str ''DATE: 2024/01/15'') = Some []"
proof -
  let ?pre = "str ''Client: A'' @ [10]"
  let ?rest = "str '' 9:00 am - 10:00 PM''"
  have h1: "map ascii_lower (str ''SESSION time:'') = map ascii_lower (str ''Session Time:'')"
    by (simp add: str_def ascii_lower_def)
  have h2: "\<not> ci_occurs (str ''Session Time:'') (?pre @ butlast (str ''SESSION time:''))"
    by (simp add: str_def ci_def ascii_lower_def)
  have e: "session_time_of (str ''Session Time:'' @ ?rest) = str ''9:00 am - 10:00 PM''"
    by (simp add: eval_defs)
  have h3: "\<not> sublist (str ''Client:'') (str ''client: Bob'')"
    by (simp add: str_def sublist_Cons_right)
  have h4: "\<not> sublist (str ''Rendering Provider:'')
      (str ''Client: Bob'' @ [10] @ str ''rendering provider: Dr. Smith'')"
    by (simp add: str_def sublist_Cons_right)
  have h5: "\<not> sublist (str ''Date:'') (str ''Client: Bob'' @ [10] @ str ''DATE: 2024/01/15'')"
    by (simp add: str_def sublist_Cons_right)
  have "session_time_of (?pre @ str ''SESSION time:'' @ ?rest) =
      session_time_of (str ''Session Time:'' @ ?rest)"
    using session_marker_any_casing [of "str ''SESSION time:''" ?pre ?rest] h1 h2 by blast
  with e have "session_time_of (?pre @ str ''SESSION time:'' @ ?rest) = str ''9:00 am - 10:00 PM''"
    by simp
  moreover have "client_name_of (str ''client: Bob'') = Inr []"
    using session_marker_any_casing [of _ _ _ "str ''client: Bob''"] h3 by blast
  moreover have "provider_of (str ''Client: Bob'' @ [10] @ str ''rendering provider: Dr. Smith'') = Inr []"
    using session_marker_any_casing
      [of _ _ _ "str ''Client: Bob'' @ [10] @ str ''rendering provider: Dr. Smith''"] h4 by blast
  moreover have "date_value_of (str ''Client: Bob'' @ [10] @ str ''DATE: 2024/01/15'') = Some []"
    using session_marker_any_casing
      [of _ _ _ "str ''Client: Bob'' @ [10] @ str ''DATE: 2024/01/15''"] h5 by blast
  ultimately show ?thesis using e by simp
qed

end
